theory Spec2Isabelle
  imports Main
begin

section \<open>The objects tasks: \<open>Rectangle\<close> and the CSS selector builder\<close>

text \<open>
  A shallow embedding of \<^verbatim>\<open>src/05-objects-tasks.js\<close>. JavaScript strings are
  modelled as \<^typ>\<open>string\<close>; the only string operation of the source is concatenation
  (\<^verbatim>\<open>+=\<close> and template literals). The counters and the stage number of a
  \<^verbatim>\<open>Builder\<close> only ever hold the small non-negative integers written in the source, so
  they are natural numbers.
\<close>

subsection \<open>\<open>Rectangle\<close>\<close>

text \<open>
  \<^verbatim>\<open>function Rectangle(width, height) {
    return { width, height, getArea: () => height * width };
  }\<close>
  The returned object has two data fields and a closure. JavaScript numbers are IEEE
  doubles, so the multiplication of the source is a parameter \<open>mul\<close> of the model; the
  closure multiplies \<open>height\<close> by \<open>width\<close>, in this order, as the source does.
\<close>

record 'n rectangle =
  width :: 'n
  height :: 'n
  getArea :: "unit \<Rightarrow> 'n"

definition Rectangle :: "('n \<Rightarrow> 'n \<Rightarrow> 'n) \<Rightarrow> 'n \<Rightarrow> 'n \<Rightarrow> 'n rectangle" where
  "Rectangle mul w h = \<lparr>width = w, height = h, getArea = (\<lambda>_. mul h w)\<rparr>"

subsection \<open>The two errors\<close>

text \<open>
  \<^verbatim>\<open>orderError()\<close> and \<^verbatim>\<open>countError()\<close> throw an \<^verbatim>\<open>Error\<close> with a fixed message each;
  the spec calls them the ordering error and the cardinality error.
\<close>

datatype error = OrderError | CountError

subsection \<open>The accumulator: class \<open>Builder\<close>\<close>

text \<open>
  The fields of a \<^verbatim>\<open>Builder\<close> object. The field \<^verbatim>\<open>values\<close> of the source is named
  \<open>values_str\<close> here.
\<close>

record Builder =
  elements :: nat
  ids :: nat
  pseudoElements :: nat
  callQueue :: nat
  values_str :: string

text \<open>
  A method call on a \<^verbatim>\<open>Builder\<close> mutates the object in place and either returns or
  throws. The model passes the object explicitly: \<open>Inr\<close> carries what the method returns
  and the object after the call, \<open>Inl (e, b)\<close> the error thrown and the object as the
  throw leaves it (the assignments made before the throw are kept).
\<close>

type_synonym 'a outcome = "(error \<times> Builder) + 'a"

definition Builder_constructor :: "string \<Rightarrow> nat \<Rightarrow> Builder" where
  "Builder_constructor v first =
     \<lparr>elements = (if first = 1 then 1 else 0),
      ids = (if first = 2 then 1 else 0),
      pseudoElements = (if first = 6 then 1 else 0),
      callQueue = first,
      values_str = v\<rparr>"

text \<open>
  \<^verbatim>\<open>checkQueue(callQueue) {
    if (this.callQueue > callQueue) orderError();
    this.callQueue = callQueue;
  }\<close>
\<close>

definition Builder_checkQueue :: "nat \<Rightarrow> Builder \<Rightarrow> Builder outcome" where
  "Builder_checkQueue n b =
     (if callQueue b > n then Inl (OrderError, b)
      else Inr (b\<lparr>callQueue := n\<rparr>))"

text \<open>
  The six appenders. Each returns \<^verbatim>\<open>this\<close>, so the returned value is the object after
  the call.
\<close>

definition Builder_element :: "string \<Rightarrow> Builder \<Rightarrow> Builder outcome" where
  "Builder_element v b =
     (case Builder_checkQueue 1 b of
        Inl x \<Rightarrow> Inl x
      | Inr b1 \<Rightarrow>
          (let b2 = b1\<lparr>elements := elements b1 + 1\<rparr> in
           if elements b2 > 1 then Inl (CountError, b2)
           else Inr (b2\<lparr>values_str := values_str b2 @ v\<rparr>)))"

definition Builder_id :: "string \<Rightarrow> Builder \<Rightarrow> Builder outcome" where
  "Builder_id v b =
     (case Builder_checkQueue 2 b of
        Inl x \<Rightarrow> Inl x
      | Inr b1 \<Rightarrow>
          (let b2 = b1\<lparr>ids := ids b1 + 1\<rparr> in
           if ids b2 > 1 then Inl (CountError, b2)
           else Inr (b2\<lparr>values_str := values_str b2 @ ''#'' @ v\<rparr>)))"

definition Builder_class :: "string \<Rightarrow> Builder \<Rightarrow> Builder outcome" where
  "Builder_class v b =
     (case Builder_checkQueue 3 b of
        Inl x \<Rightarrow> Inl x
      | Inr b1 \<Rightarrow> Inr (b1\<lparr>values_str := values_str b1 @ ''.'' @ v\<rparr>))"

definition Builder_attr :: "string \<Rightarrow> Builder \<Rightarrow> Builder outcome" where
  "Builder_attr v b =
     (case Builder_checkQueue 4 b of
        Inl x \<Rightarrow> Inl x
      | Inr b1 \<Rightarrow> Inr (b1\<lparr>values_str := values_str b1 @ ''['' @ v @ '']''\<rparr>))"

definition Builder_pseudoClass :: "string \<Rightarrow> Builder \<Rightarrow> Builder outcome" where
  "Builder_pseudoClass v b =
     (case Builder_checkQueue 5 b of
        Inl x \<Rightarrow> Inl x
      | Inr b1 \<Rightarrow> Inr (b1\<lparr>values_str := values_str b1 @ '':'' @ v\<rparr>))"

definition Builder_pseudoElement :: "string \<Rightarrow> Builder \<Rightarrow> Builder outcome" where
  "Builder_pseudoElement v b =
     (case Builder_checkQueue 6 b of
        Inl x \<Rightarrow> Inl x
      | Inr b1 \<Rightarrow>
          (let b2 = b1\<lparr>pseudoElements := pseudoElements b1 + 1\<rparr> in
           if pseudoElements b2 > 1 then Inl (CountError, b2)
           else Inr (b2\<lparr>values_str := values_str b2 @ ''::'' @ v\<rparr>)))"

text \<open>
  \<^verbatim>\<open>stringify() { return this.values; }\<close>
  The method has the result type of the appenders, so that "it does not throw" and "it
  leaves the object as it was" are statements about the definition.
\<close>

definition Builder_stringify :: "Builder \<Rightarrow> (string \<times> Builder) outcome" where
  "Builder_stringify b = Inr (values_str b, b)"

subsection \<open>The facade: \<open>cssSelectorBuilder\<close>\<close>

definition cssSelectorBuilder_element :: "string \<Rightarrow> Builder" where
  "cssSelectorBuilder_element v = Builder_constructor v 1"

definition cssSelectorBuilder_id :: "string \<Rightarrow> Builder" where
  "cssSelectorBuilder_id v = Builder_constructor (''#'' @ v) 2"

definition cssSelectorBuilder_class :: "string \<Rightarrow> Builder" where
  "cssSelectorBuilder_class v = Builder_constructor (''.'' @ v) 3"

definition cssSelectorBuilder_attr :: "string \<Rightarrow> Builder" where
  "cssSelectorBuilder_attr v = Builder_constructor (''['' @ v @ '']'') 4"

definition cssSelectorBuilder_pseudoClass :: "string \<Rightarrow> Builder" where
  "cssSelectorBuilder_pseudoClass v = Builder_constructor ('':'' @ v) 5"

definition cssSelectorBuilder_pseudoElement :: "string \<Rightarrow> Builder" where
  "cssSelectorBuilder_pseudoElement v = Builder_constructor (''::'' @ v) 6"

subsection \<open>Calls and chains\<close>

text \<open>
  A call names one of the six methods and carries its argument. \<open>invoke\<close> is the method
  dispatch of \<^verbatim>\<open>b.m(v)\<close> on an accumulator and \<open>entry\<close> that of \<^verbatim>\<open>cssSelectorBuilder.m(v)\<close>.
\<close>

datatype stage = Element | Id | Class | Attr | PseudoClass | PseudoElement

type_synonym call = "stage \<times> string"

fun invoke :: "call \<Rightarrow> Builder \<Rightarrow> Builder outcome" where
  "invoke (Element, v) b = Builder_element v b"
| "invoke (Id, v) b = Builder_id v b"
| "invoke (Class, v) b = Builder_class v b"
| "invoke (Attr, v) b = Builder_attr v b"
| "invoke (PseudoClass, v) b = Builder_pseudoClass v b"
| "invoke (PseudoElement, v) b = Builder_pseudoElement v b"

fun entry :: "call \<Rightarrow> Builder" where
  "entry (Element, v) = cssSelectorBuilder_element v"
| "entry (Id, v) = cssSelectorBuilder_id v"
| "entry (Class, v) = cssSelectorBuilder_class v"
| "entry (Attr, v) = cssSelectorBuilder_attr v"
| "entry (PseudoClass, v) = cssSelectorBuilder_pseudoClass v"
| "entry (PseudoElement, v) = cssSelectorBuilder_pseudoElement v"

text \<open>
  A fluent chain \<^verbatim>\<open>b.m1(v1).m2(v2)...\<close>: each call runs on the object the previous one
  returned, and the first throw ends the chain.
\<close>

fun chain :: "Builder \<Rightarrow> call list \<Rightarrow> Builder outcome" where
  "chain b [] = Inr b"
| "chain b (c # cs) = (case invoke c b of Inl x \<Rightarrow> Inl x | Inr b' \<Rightarrow> chain b' cs)"

text \<open>The error a call threw, if it threw, and the object a call leaves behind.\<close>

fun raised :: "'a outcome \<Rightarrow> error option" where
  "raised (Inl (e, b)) = Some e"
| "raised (Inr r) = None"

fun left_behind :: "Builder outcome \<Rightarrow> Builder" where
  "left_behind (Inl (e, b)) = b"
| "left_behind (Inr b) = b"

text \<open>
  The whole life of one accumulator held in a variable: the calls are made one after
  another on the same object, and a throw is caught by the caller, who goes on using the
  object. \<open>lifetime\<close> is the object after the calls, \<open>thrown\<close> the errors they threw.
\<close>

fun lifetime :: "Builder \<Rightarrow> call list \<Rightarrow> Builder" where
  "lifetime b [] = b"
| "lifetime b (c # cs) = lifetime (left_behind (invoke c b)) cs"

fun thrown :: "Builder \<Rightarrow> call list \<Rightarrow> error list" where
  "thrown b [] = []"
| "thrown b (c # cs) =
     (case raised (invoke c b) of None \<Rightarrow> [] | Some e \<Rightarrow> [e]) @
     thrown (left_behind (invoke c b)) cs"

text \<open>The calls of such a life that returned, in call order.\<close>

fun applied :: "Builder \<Rightarrow> call list \<Rightarrow> call list" where
  "applied b [] = []"
| "applied b (c # cs) =
     (case raised (invoke c b) of None \<Rightarrow> [c] | Some e \<Rightarrow> []) @
     applied (left_behind (invoke c b)) cs"

subsection \<open>The stages as the spec orders them\<close>

text \<open>
  The spec's order element < id < class < attribute < pseudo-class < pseudo-element, as
  ordinals, and the fragment the spec gives for a call: the value with the fixed prefix
  of its stage.
\<close>

fun spec_ordinal :: "stage \<Rightarrow> nat" where
  "spec_ordinal Element = 1"
| "spec_ordinal Id = 2"
| "spec_ordinal Class = 3"
| "spec_ordinal Attr = 4"
| "spec_ordinal PseudoClass = 5"
| "spec_ordinal PseudoElement = 6"

fun spec_decorate :: "call \<Rightarrow> string" where
  "spec_decorate (Element, v) = v"
| "spec_decorate (Id, v) = ''#'' @ v"
| "spec_decorate (Class, v) = ''.'' @ v"
| "spec_decorate (Attr, v) = ''['' @ v @ '']''"
| "spec_decorate (PseudoClass, v) = '':'' @ v"
| "spec_decorate (PseudoElement, v) = ''::'' @ v"

text \<open>How often a stage occurs among some calls.\<close>

definition uses :: "stage \<Rightarrow> call list \<Rightarrow> nat" where
  "uses s cs = length (filter (\<lambda>c. fst c = s) cs)"

text \<open>
  A sequence of calls respects the grammar: the ordinals never decrease, and element, id
  and pseudo-element occur at most once each.
\<close>

definition spec_valid :: "call list \<Rightarrow> bool" where
  "spec_valid cs \<longleftrightarrow>
     sorted (map (\<lambda>c. spec_ordinal (fst c)) cs) \<and>
     uses Element cs \<le> 1 \<and> uses Id cs \<le> 1 \<and> uses PseudoElement cs \<le> 1"

text \<open>
  The counter a singleton stage keeps (the other three stages keep none), and the spec's
  cardinality invariant on an accumulator.
\<close>

fun counter :: "stage \<Rightarrow> Builder \<Rightarrow> nat option" where
  "counter Element b = Some (elements b)"
| "counter Id b = Some (ids b)"
| "counter PseudoElement b = Some (pseudoElements b)"
| "counter s b = None"

definition spec_cardinality :: "Builder \<Rightarrow> bool" where
  "spec_cardinality b \<longleftrightarrow> elements b \<le> 1 \<and> ids b \<le> 1 \<and> pseudoElements b \<le> 1"

subsection \<open>Combined selectors\<close>

text \<open>
  \<^verbatim>\<open>combine(selector1, combinator, selector2)\<close> returns an object that keeps its three
  arguments and whose \<^verbatim>\<open>stringify()\<close> is
  \<^verbatim>\<open>`${selector1.stringify()} ${combinator} ${selector2.stringify()}`\<close>.
  A selector is an accumulator or such a node. As for \<open>Builder_stringify\<close>, the result
  types have a branch for a throw.
\<close>

datatype selector = Accumulator Builder | CombinatorNode selector string selector

definition cssSelectorBuilder_combine :: "selector \<Rightarrow> string \<Rightarrow> selector \<Rightarrow> error + selector" where
  "cssSelectorBuilder_combine selector1 combinator selector2 =
     Inr (CombinatorNode selector1 combinator selector2)"

fun stringify :: "selector \<Rightarrow> error + string" where
  "stringify (Accumulator b) =
     (case Builder_stringify b of Inl (e, b') \<Rightarrow> Inl e | Inr (s, b') \<Rightarrow> Inr s)"
| "stringify (CombinatorNode selector1 combinator selector2) =
     (case stringify selector1 of
        Inl e \<Rightarrow> Inl e
      | Inr s1 \<Rightarrow>
          (case stringify selector2 of
             Inl e \<Rightarrow> Inl e
           | Inr s2 \<Rightarrow> Inr (s1 @ '' '' @ combinator @ '' '' @ s2)))"

section \<open>Properties\<close>

subsection \<open>What one call does\<close>

lemma checkQueue_cases:
  "Builder_checkQueue n b =
     (if n < callQueue b then Inl (OrderError, b) else Inr (b\<lparr>callQueue := n\<rparr>))"
  by (simp add: Builder_checkQueue_def)

lemmas appender_defs =
  Builder_element_def Builder_id_def Builder_class_def Builder_attr_def
  Builder_pseudoClass_def Builder_pseudoElement_def

lemmas facade_defs =
  cssSelectorBuilder_element_def cssSelectorBuilder_id_def cssSelectorBuilder_class_def
  cssSelectorBuilder_attr_def cssSelectorBuilder_pseudoClass_def
  cssSelectorBuilder_pseudoElement_def Builder_constructor_def

lemma invoke_order_error:
  "spec_ordinal (fst c) < callQueue b \<Longrightarrow> invoke c b = Inl (OrderError, b)"
  by (cases c; cases "fst c") (auto simp: appender_defs checkQueue_cases)

lemma invoke_passes_order:
  "\<not> spec_ordinal (fst c) < callQueue b \<Longrightarrow> raised (invoke c b) \<noteq> Some OrderError"
  by (cases c; cases "fst c") (auto simp: appender_defs checkQueue_cases Let_def)

lemma invoke_returns_callQueue:
  "invoke c b = Inr b' \<Longrightarrow> callQueue b' = spec_ordinal (fst c)"
  by (cases c; cases "fst c")
     (auto simp: appender_defs checkQueue_cases Let_def split: if_splits)

lemma entry_callQueue: "callQueue (entry c) = spec_ordinal (fst c)"
  by (cases c; cases "fst c") (auto simp: facade_defs)

subsection \<open>Chains from a facade entry\<close>

lemma uses_Cons: "uses s (c # cs) = (if fst c = s then 1 else 0) + uses s cs"
  by (simp add: uses_def)

lemma uses_Nil: "uses s [] = 0"
  by (simp add: uses_def)

lemma invoke_returns:
  assumes "invoke c b = Inr b'"
  shows "callQueue b \<le> spec_ordinal (fst c)"
    and "callQueue b' = spec_ordinal (fst c)"
    and "elements b' = elements b + uses Element [c]"
    and "ids b' = ids b + uses Id [c]"
    and "pseudoElements b' = pseudoElements b + uses PseudoElement [c]"
    and "values_str b' = values_str b @ spec_decorate c"
  using assms
  by (cases c; cases "fst c";
      auto simp: appender_defs checkQueue_cases Let_def uses_def split: if_splits)+

lemma invoke_succeeds:
  assumes "callQueue b \<le> spec_ordinal (fst c)"
    and "elements b + uses Element [c] \<le> 1"
    and "ids b + uses Id [c] \<le> 1"
    and "pseudoElements b + uses PseudoElement [c] \<le> 1"
  shows "\<exists>b'. invoke c b = Inr b'"
  using assms
  by (cases c; cases "fst c")
     (auto simp: appender_defs checkQueue_cases Let_def uses_def)

lemma entry_fields:
  "elements (entry c) = uses Element [c]"
  "ids (entry c) = uses Id [c]"
  "pseudoElements (entry c) = uses PseudoElement [c]"
  "values_str (entry c) = spec_decorate c"
  by (cases c; cases "fst c"; simp add: facade_defs uses_def)+

lemma chain_returns:
  "chain b cs = Inr b' \<Longrightarrow>
     callQueue b \<le> callQueue b' \<and>
     (\<forall>c \<in> set cs. spec_ordinal (fst c) \<le> callQueue b') \<and>
     callQueue b' = (if cs = [] then callQueue b else spec_ordinal (fst (last cs))) \<and>
     elements b' = elements b + uses Element cs \<and>
     ids b' = ids b + uses Id cs \<and>
     pseudoElements b' = pseudoElements b + uses PseudoElement cs \<and>
     values_str b' = values_str b @ concat (map spec_decorate cs)"
proof (induction cs arbitrary: b)
  case Nil
  then show ?case by (simp add: uses_Nil)
next
  case (Cons c cs)
  from Cons.prems obtain b1 where b1: "invoke c b = Inr b1" and rest: "chain b1 cs = Inr b'"
    by (auto split: sum.splits)
  note step = invoke_returns [OF b1]
  note ih = Cons.IH [OF rest]
  show ?case
    using step ih by (auto simp: uses_Cons uses_Nil)
qed

lemma chain_succeeds:
  "sorted (map (\<lambda>c. spec_ordinal (fst c)) cs) \<Longrightarrow>
   \<forall>c \<in> set cs. callQueue b \<le> spec_ordinal (fst c) \<Longrightarrow>
   elements b + uses Element cs \<le> 1 \<Longrightarrow>
   ids b + uses Id cs \<le> 1 \<Longrightarrow>
   pseudoElements b + uses PseudoElement cs \<le> 1 \<Longrightarrow>
   \<exists>b'. chain b cs = Inr b'"
proof (induction cs arbitrary: b)
  case Nil
  then show ?case by simp
next
  case (Cons c cs)
  have "\<exists>b1. invoke c b = Inr b1"
    using Cons.prems by (intro invoke_succeeds) (auto simp: uses_Cons uses_Nil)
  then obtain b1 where b1: "invoke c b = Inr b1" ..
  note step = invoke_returns [OF b1]
  have "\<exists>b'. chain b1 cs = Inr b'"
    using Cons.prems step by (intro Cons.IH) (auto simp: uses_Cons uses_Nil)
  then show ?case using b1 by simp
qed

lemma uses_take: "uses s (take k cs) \<le> uses s cs"
proof -
  have "uses s cs = uses s (take k cs) + uses s (drop k cs)"
    unfolding uses_def by (metis append_take_drop_id filter_append length_append)
  then show ?thesis by simp
qed

lemma spec_valid_take: "spec_valid (c # cs) \<Longrightarrow> spec_valid (c # take k cs)"
proof -
  assume v: "spec_valid (c # cs)"
  have "sorted (map (\<lambda>c. spec_ordinal (fst c)) (take (Suc k) (c # cs)))"
    using v unfolding spec_valid_def take_map [symmetric] by (intro sorted_wrt_take) simp
  moreover have "uses s (take (Suc k) (c # cs)) \<le> uses s (c # cs)" for s
    by (rule uses_take)
  ultimately show ?thesis
    using v unfolding spec_valid_def by (auto intro: order_trans simp del: sorted_wrt.simps)
qed


text \<open>
  C1. Let a facade entry \<open>c\<close> followed by the chained calls \<open>cs\<close> respect the grammar
  order, with element, id and pseudo-element used at most once. Then after the entry and
  after each further call of the chain (the first \<open>k\<close> calls, for every \<open>k\<close>) nothing has
  thrown, and \<open>stringify()\<close> returns the fragments of the calls made so far, each the
  value with the prefix of its stage, concatenated in call order.
\<close>

theorem stringify_valid_chain:
  assumes "spec_valid (c # cs)" and "k \<le> length cs"
  shows "\<exists>b. chain (entry c) (take k cs) = Inr b \<and>
             Builder_stringify b = Inr (concat (map spec_decorate (c # take k cs)), b)"
proof -
  let ?ds = "take k cs"
  have v: "spec_valid (c # ?ds)"
    using assms(1) by (rule spec_valid_take)
  have srt: "sorted (map (\<lambda>c. spec_ordinal (fst c)) ?ds)"
    and low: "\<forall>d \<in> set ?ds. callQueue (entry c) \<le> spec_ordinal (fst d)"
    using v by (simp_all add: spec_valid_def entry_callQueue)
  have cnt: "elements (entry c) + uses Element ?ds \<le> 1"
            "ids (entry c) + uses Id ?ds \<le> 1"
            "pseudoElements (entry c) + uses PseudoElement ?ds \<le> 1"
    using v by (simp_all add: spec_valid_def entry_fields uses_Cons uses_Nil)
  from chain_succeeds [OF srt low cnt]
  obtain b where b: "chain (entry c) ?ds = Inr b" ..
  have "values_str b = concat (map spec_decorate (c # ?ds))"
    using chain_returns [OF b] by (simp add: entry_fields)
  then show ?thesis
    using b by (simp add: Builder_stringify_def)
qed

theorem stringify_valid_chain_witness:
  "spec_valid [(Element, ''a''), (Attr, ''href''), (PseudoClass, ''focus'')] \<and>
   (2::nat) \<le> length [(Attr, ''href''), (PseudoClass, ''focus'')] \<and>
   (\<exists>b. chain (entry (Element, ''a'')) [(Attr, ''href''), (PseudoClass, ''focus'')] = Inr b \<and>
        Builder_stringify b = Inr (''a[href]:focus'', b))"
proof -
  have v: "spec_valid [(Element, ''a''), (Attr, ''href''), (PseudoClass, ''focus'')]"
    by (simp add: spec_valid_def uses_def)
  have k: "(2::nat) \<le> length [(Attr, ''href''), (PseudoClass, ''focus'')]"
    by simp
  show ?thesis
    using v k stringify_valid_chain [OF v k] by simp
qed

text \<open>
  C3, as the code has it. Every appender checks the order first and the cardinality
  second. After \<open>id\<close>, \<open>class\<close>, a second \<open>id\<close> therefore throws the ordering error, not
  the cardinality error.
\<close>

theorem second_id_counterexample:
  "chain (entry (Id, ''a'')) [(Class, ''b'')] =
     Inr \<lparr>elements = 0, ids = 1, pseudoElements = 0, callQueue = 3, values_str = ''#a.b''\<rparr> \<and>
   raised (invoke (Id, ''c'')
     \<lparr>elements = 0, ids = 1, pseudoElements = 0, callQueue = 3, values_str = ''#a.b''\<rparr>) =
     Some OrderError \<and>
   raised (invoke (Id, ''c'')
     \<lparr>elements = 0, ids = 1, pseudoElements = 0, callQueue = 3, values_str = ''#a.b''\<rparr>) \<noteq>
     Some CountError"
  by (simp add: facade_defs appender_defs checkQueue_cases)

text \<open>
  C3, amended. In a chain that has applied \<open>id\<close> (as the facade entry or as a chained
  call) and has not thrown, a further call of \<open>id\<close> always throws: the cardinality error
  when it comes right after the first \<open>id\<close>, the ordering error when any other stage was
  applied between the two.
\<close>

theorem second_id_raises:
  assumes "chain (entry c0) cs = Inr b" and "Id \<in> fst ` set (c0 # cs)"
  shows "raised (invoke (Id, v) b) =
           Some (if fst (last (c0 # cs)) = Id then CountError else OrderError)"
proof -
  note r = chain_returns [OF assms(1)]
  have q: "callQueue b = spec_ordinal (fst (last (c0 # cs)))"
    using r by (simp add: entry_callQueue)
  have "0 < uses Id (c0 # cs)"
    using assms(2) unfolding uses_def by (simp only: length_greater_0_conv filter_empty_conv) force
  moreover have "ids b = uses Id (c0 # cs)"
    using r by (simp add: entry_fields uses_Cons uses_Nil)
  ultimately have n: "1 \<le> ids b"
    by simp
  have ge: "2 \<le> callQueue b"
  proof (cases "fst c0 = Id")
    case True
    then show ?thesis using r by (simp add: entry_callQueue)
  next
    case False
    then obtain d where "d \<in> set cs" "fst d = Id" using assms(2) by auto
    then show ?thesis using r by force
  qed
  show ?thesis
  proof (cases "fst (last (c0 # cs)) = Id")
    case True
    then have "callQueue b = 2" using q by simp
    then show ?thesis
      using True n by (simp add: Builder_id_def checkQueue_cases Let_def)
  next
    case False
    then have "callQueue b \<noteq> 2"
      using q by (cases "fst (last (c0 # cs))") simp_all
    then have "2 < callQueue b" using ge by simp
    then show ?thesis
      using False by (simp add: Builder_id_def checkQueue_cases)
  qed
qed

theorem second_id_raises_witness:
  "chain (entry (Element, ''div'')) [(Id, ''a''), (Class, ''b'')] =
     Inr \<lparr>elements = 1, ids = 1, pseudoElements = 0, callQueue = 3, values_str = ''div#a.b''\<rparr> \<and>
   Id \<in> fst ` set [(Element, ''div''), (Id, ''a''), (Class, ''b'')] \<and>
   raised (invoke (Id, ''c'')
     \<lparr>elements = 1, ids = 1, pseudoElements = 0, callQueue = 3, values_str = ''div#a.b''\<rparr>) =
     Some OrderError \<and>
   chain (entry (Element, ''div'')) [(Id, ''a'')] =
     Inr \<lparr>elements = 1, ids = 1, pseudoElements = 0, callQueue = 2, values_str = ''div#a''\<rparr> \<and>
   Id \<in> fst ` set [(Element, ''div''), (Id, ''a'')] \<and>
   raised (invoke (Id, ''c'')
     \<lparr>elements = 1, ids = 1, pseudoElements = 0, callQueue = 2, values_str = ''div#a''\<rparr>) =
     Some CountError"
proof -
  have c1: "chain (entry (Element, ''div'')) [(Id, ''a''), (Class, ''b'')] =
     Inr \<lparr>elements = 1, ids = 1, pseudoElements = 0, callQueue = 3, values_str = ''div#a.b''\<rparr>"
    by (simp add: facade_defs appender_defs checkQueue_cases)
  have m1: "Id \<in> fst ` set [(Element, ''div''), (Id, ''a''), (Class, ''b'')]"
    by simp
  have c2: "chain (entry (Element, ''div'')) [(Id, ''a'')] =
     Inr \<lparr>elements = 1, ids = 1, pseudoElements = 0, callQueue = 2, values_str = ''div#a''\<rparr>"
    by (simp add: facade_defs appender_defs checkQueue_cases)
  have m2: "Id \<in> fst ` set [(Element, ''div''), (Id, ''a'')]"
    by simp
  show ?thesis
    using c1 m1 c2 m2 second_id_raises [OF c1 m1, of "''c''"] second_id_raises [OF c2 m2, of "''c''"]
    by simp
qed

subsection \<open>The scenario: \<open>element\<close>, \<open>id\<close>, \<open>element\<close>\<close>

text \<open>
  C4, as the code has it. After \<open>element('div').id('main')\<close> and a read of \<open>stringify()\<close>,
  the stage number is 2; \<open>element('span')\<close> fails the order check, which comes first, and
  does not reach the cardinality check.
\<close>

theorem element_after_id_counterexample:
  "Builder_id ''main'' (cssSelectorBuilder_element ''div'') =
     Inr \<lparr>elements = 1, ids = 1, pseudoElements = 0, callQueue = 2, values_str = ''div#main''\<rparr> \<and>
   Builder_stringify
     \<lparr>elements = 1, ids = 1, pseudoElements = 0, callQueue = 2, values_str = ''div#main''\<rparr> =
     Inr (''div#main'',
       \<lparr>elements = 1, ids = 1, pseudoElements = 0, callQueue = 2, values_str = ''div#main''\<rparr>) \<and>
   raised (Builder_element ''span''
     \<lparr>elements = 1, ids = 1, pseudoElements = 0, callQueue = 2, values_str = ''div#main''\<rparr>) \<noteq>
     Some CountError"
  by (simp add: facade_defs appender_defs checkQueue_cases Builder_stringify_def)

text \<open>
  C4, amended. After \<open>element(d).id(m)\<close> on one accumulator and a read of \<open>stringify()\<close>
  (which returns \<open>d#m\<close>), calling \<open>element(e)\<close> on that object throws the ordering error and
  leaves the object as it was.
\<close>

theorem element_after_id_raises:
  "(case Builder_id m (cssSelectorBuilder_element d) of
      Inl x \<Rightarrow> False
    | Inr b \<Rightarrow>
        (case Builder_stringify b of
           Inl x \<Rightarrow> False
         | Inr (s, b') \<Rightarrow> s = d @ ''#'' @ m \<and> Builder_element e b' = Inl (OrderError, b)))"
  by (simp add: facade_defs appender_defs checkQueue_cases Builder_stringify_def)

subsection \<open>Combined selectors\<close>

lemma stringify_returns: "\<exists>s. stringify x = Inr s"
  by (induction x) (auto simp: Builder_stringify_def)

text \<open>
  C5. For selectors \<open>a\<close>, \<open>b\<close>, \<open>c\<close> and a token \<open>t\<close>: \<open>combine(a, t, b).stringify()\<close> is
  \<open>a.stringify()\<close>, a space, \<open>t\<close>, a space, \<open>b.stringify()\<close>; and nested,
  \<open>combine(combine(a, '>', b), '~', c).stringify()\<close> is \<open>a.stringify()\<close>, \<open>' > '\<close>,
  \<open>b.stringify()\<close>, \<open>' ~ '\<close>, \<open>c.stringify()\<close>. None of the calls throws.
\<close>

theorem combine_stringify:
  "\<exists>sa sb sc n ab abc.
     stringify a = Inr sa \<and> stringify b = Inr sb \<and> stringify c = Inr sc \<and>
     cssSelectorBuilder_combine a t b = Inr n \<and>
     stringify n = Inr (sa @ '' '' @ t @ '' '' @ sb) \<and>
     cssSelectorBuilder_combine a ''>'' b = Inr ab \<and>
     cssSelectorBuilder_combine ab ''~'' c = Inr abc \<and>
     stringify abc = Inr (sa @ '' > '' @ sb @ '' ~ '' @ sc)"
proof -
  obtain sa sb sc
    where "stringify a = Inr sa" "stringify b = Inr sb" "stringify c = Inr sc"
    using stringify_returns by blast
  then show ?thesis
    by (simp add: cssSelectorBuilder_combine_def)
qed

text \<open>
  C6. For all operands and every token string, \<open>combine\<close> returns (it has no throwing
  branch, so no token is rejected), and the token stands in the rendered text as it was
  given, between two single spaces: two tokens render the same text only when they are the
  same string.
\<close>

theorem combine_never_raises:
  "\<exists>n n' sa sb.
     cssSelectorBuilder_combine a t b = Inr n \<and>
     cssSelectorBuilder_combine a t' b = Inr n' \<and>
     stringify a = Inr sa \<and> stringify b = Inr sb \<and>
     stringify n = Inr (sa @ '' '' @ t @ '' '' @ sb) \<and>
     (stringify n = stringify n' \<longleftrightarrow> t = t')"
proof -
  obtain sa sb where "stringify a = Inr sa" "stringify b = Inr sb"
    using stringify_returns by blast
  then show ?thesis
    by (simp add: cssSelectorBuilder_combine_def)
qed

subsection \<open>\<open>Rectangle\<close>\<close>

text \<open>
  C8. \<open>Rectangle(w, h)\<close> has \<open>width = w\<close>, \<open>height = h\<close>, and \<open>getArea()\<close> returns \<open>w * h\<close>.
  The source computes \<open>height * width\<close>; the multiplication of JavaScript numbers is
  commutative, which is the hypothesis on \<open>mul\<close>.
\<close>

theorem rectangle_fields:
  assumes "\<forall>x y. mul x y = mul y x"
  shows "width (Rectangle mul w h) = w \<and> height (Rectangle mul w h) = h \<and>
         getArea (Rectangle mul w h) () = mul w h"
  using assms by (simp add: Rectangle_def)

theorem rectangle_fields_witness:
  "(\<forall>x y :: int. x * y = y * x) \<and>
   width (Rectangle (*) (10::int) 20) = 10 \<and> height (Rectangle (*) (10::int) 20) = 20 \<and>
   getArea (Rectangle (*) (10::int) 20) () = 200"
proof -
  have h: "\<forall>x y :: int. x * y = y * x" by (simp add: mult.commute)
  show ?thesis
    using h rectangle_fields [OF h, of 10 20] by simp
qed

subsection \<open>Reading \<open>stringify()\<close>\<close>

text \<open>
  C10. On every accumulator \<open>stringify()\<close> returns, and leaves the object with every field
  as it was; a second read right after the first returns the same string; and any call,
  and any chain of calls, made after the read does what it would have done without it.
\<close>

theorem stringify_pure:
  "(case Builder_stringify b of
      Inl x \<Rightarrow> False
    | Inr (s1, b1) \<Rightarrow>
        b1 = b \<and>
        (case Builder_stringify b1 of
           Inl x \<Rightarrow> False
         | Inr (s2, b2) \<Rightarrow> s2 = s1 \<and> b2 = b) \<and>
        invoke c b1 = invoke c b \<and> chain b1 cs = chain b cs)"
  by (simp add: Builder_stringify_def)


subsection \<open>What a throw leaves behind\<close>

lemma invoke_raises:
  assumes "invoke c b = Inl (e, b')"
  shows "values_str b' = values_str b"
    and "e = OrderError \<Longrightarrow> b' = b"
    and "e = CountError \<Longrightarrow> callQueue b' = spec_ordinal (fst c)"
    and "e = CountError \<Longrightarrow> counter (fst c) b' = map_option Suc (counter (fst c) b)"
    and "e = CountError \<Longrightarrow> counter (fst c) b \<noteq> None"
    and "e = CountError \<Longrightarrow> s \<noteq> fst c \<Longrightarrow> counter s b' = counter s b"
    and "e = CountError \<Longrightarrow> spec_cardinality b \<Longrightarrow> counter (fst c) b' = Some 2"
  using assms
  by (cases c; cases "fst c"; cases s;
      auto simp: appender_defs checkQueue_cases Let_def spec_cardinality_def
           split: if_splits)+

lemma invoke_keeps_cardinality:
  assumes "spec_cardinality b" and "raised (invoke c b) \<noteq> Some CountError"
  shows "spec_cardinality (left_behind (invoke c b))"
  using assms
  by (cases c; cases "fst c")
     (auto simp: appender_defs checkQueue_cases Let_def spec_cardinality_def
           split: if_splits)

lemma entry_cardinality: "spec_cardinality (entry c)"
  by (cases c; cases "fst c") (auto simp: facade_defs spec_cardinality_def)

lemma lifetime_keeps_cardinality:
  "spec_cardinality b \<Longrightarrow> CountError \<notin> set (thrown b cs) \<Longrightarrow>
   spec_cardinality (lifetime b cs)"
proof (induction cs arbitrary: b)
  case Nil
  then show ?case by simp
next
  case (Cons c cs)
  have no: "raised (invoke c b) \<noteq> Some CountError"
    using Cons.prems(2) by (auto split: option.splits)
  have rest: "CountError \<notin> set (thrown (left_behind (invoke c b)) cs)"
    using Cons.prems(2) by simp
  show ?case
    using Cons.IH [OF invoke_keeps_cardinality [OF Cons.prems(1) no] rest] by simp
qed

lemma invoke_at_bound:
  assumes "counter s b = Some n" and "1 \<le> n"
  shows "raised (invoke (s, v) b) =
           Some (if spec_ordinal s < callQueue b then OrderError else CountError)"
  using assms
  by (cases s) (auto simp: appender_defs checkQueue_cases Let_def)

text \<open>
  C7, as the code has it. The counter is incremented before it is compared with 1, so the
  throw of the cardinality error leaves it at 2: after \<open>element('a')\<close> and a second
  \<open>element('b')\<close>, \<open>elements\<close> is 2. And a call that would take a counter beyond 1 throws
  the ordering error when it comes after a later stage: \<open>id\<close> after \<open>id\<close>, \<open>class\<close>.
\<close>

theorem cardinality_counterexample:
  "lifetime (entry (Element, ''a'')) [(Element, ''b'')] =
     \<lparr>elements = 2, ids = 0, pseudoElements = 0, callQueue = 1, values_str = ''a''\<rparr> \<and>
   \<not> spec_cardinality (lifetime (entry (Element, ''a'')) [(Element, ''b'')]) \<and>
   counter Id (lifetime (entry (Id, ''a'')) [(Class, ''b'')]) = Some 1 \<and>
   raised (invoke (Id, ''c'') (lifetime (entry (Id, ''a'')) [(Class, ''b'')])) =
     Some OrderError"
  by (simp add: facade_defs appender_defs checkQueue_cases spec_cardinality_def)

text \<open>
  C7, amended. On an accumulator on which no call has thrown the cardinality error, the
  three counters are at most 1 at every point: after the construction by a facade entry
  and after every call, those that throw the ordering error included. A call of a
  singleton stage whose counter is 1 always throws: the ordering error when its stage is
  below the last stage applied, the cardinality error otherwise.
\<close>

theorem cardinality_invariant:
  "(CountError \<notin> set (thrown (entry c0) cs) \<longrightarrow>
      spec_cardinality (lifetime (entry c0) cs)) \<and>
   (counter s b = Some 1 \<longrightarrow>
      raised (invoke (s, v) b) =
        Some (if spec_ordinal s < callQueue b then OrderError else CountError))"
  using lifetime_keeps_cardinality [OF entry_cardinality, of c0 cs]
    invoke_at_bound [of s b 1 v]
  by simp

theorem cardinality_invariant_witness:
  "CountError \<notin> set (thrown (entry (Id, ''a'')) [(Class, ''b''), (Element, ''c'')]) \<and>
   thrown (entry (Id, ''a'')) [(Class, ''b''), (Element, ''c'')] = [OrderError] \<and>
   spec_cardinality (lifetime (entry (Id, ''a'')) [(Class, ''b''), (Element, ''c'')]) \<and>
   counter Id (entry (Id, ''a'')) = Some 1 \<and>
   raised (invoke (Id, ''d'') (entry (Id, ''a''))) = Some CountError"
proof -
  have t: "thrown (entry (Id, ''a'')) [(Class, ''b''), (Element, ''c'')] = [OrderError]"
    by (simp add: facade_defs appender_defs checkQueue_cases)
  have n: "CountError \<notin> set (thrown (entry (Id, ''a'')) [(Class, ''b''), (Element, ''c'')])"
    unfolding t by simp
  have k: "counter Id (entry (Id, ''a'')) = Some 1"
    by (simp add: facade_defs)
  have q: "callQueue (entry (Id, ''a'')) = 2"
    by (simp add: facade_defs)
  show ?thesis
    using t n k q
      cardinality_invariant [of "(Id, ''a'')" "[(Class, ''b''), (Element, ''c'')]"
        Id "entry (Id, ''a'')" "''d''"]
    by simp
qed

text \<open>
  C9, as the code has it. A cardinality error does not stop the accumulator from being
  used again, and each further throw increments the counter once more: after
  \<open>element('a')\<close> and a thrown \<open>element('b')\<close>, a third \<open>element('c')\<close> throws the cardinality
  error with \<open>elements\<close> at 3, not 2.
\<close>

theorem raise_frame_counterexample:
  "lifetime (entry (Element, ''a'')) [(Element, ''b'')] =
     \<lparr>elements = 2, ids = 0, pseudoElements = 0, callQueue = 1, values_str = ''a''\<rparr> \<and>
   invoke (Element, ''c'')
     \<lparr>elements = 2, ids = 0, pseudoElements = 0, callQueue = 1, values_str = ''a''\<rparr> =
     Inl (CountError,
       \<lparr>elements = 3, ids = 0, pseudoElements = 0, callQueue = 1, values_str = ''a''\<rparr>)"
  by (simp add: facade_defs appender_defs checkQueue_cases)

text \<open>
  C9, amended. A call that throws leaves the rendered text unchanged. When the error is
  the ordering error the whole accumulator is unchanged. When it is the cardinality error,
  the counter of the failing stage has been incremented by one, which makes it 2 when the
  counters were within their bounds before the call, and the stage number is that of the
  failing stage.
\<close>

theorem raise_frame:
  assumes "invoke c b = Inl (e, b')"
  shows "values_str b' = values_str b \<and>
         (e = OrderError \<longrightarrow> b' = b) \<and>
         (e = CountError \<longrightarrow>
            (\<exists>n. counter (fst c) b = Some n \<and> counter (fst c) b' = Some (Suc n)) \<and>
            (spec_cardinality b \<longrightarrow> counter (fst c) b' = Some 2) \<and>
            callQueue b' = spec_ordinal (fst c))"
  using invoke_raises [OF assms] by auto

theorem raise_frame_witness:
  "invoke (Element, ''b'') (entry (Class, ''a'')) = Inl (OrderError, entry (Class, ''a'')) \<and>
   invoke (Id, ''b'') (entry (Id, ''a'')) =
     Inl (CountError,
       \<lparr>elements = 0, ids = 2, pseudoElements = 0, callQueue = 2, values_str = ''#a''\<rparr>) \<and>
   spec_cardinality (entry (Id, ''a'')) \<and>
   values_str (entry (Id, ''a'')) = ''#a'' \<and>
   counter Id (entry (Id, ''a'')) = Some 1 \<and>
   counter Id \<lparr>elements = 0, ids = 2, pseudoElements = 0, callQueue = 2, values_str = ''#a''\<rparr> =
     Some 2 \<and>
   spec_ordinal Id = 2"
proof -
  have o: "invoke (Element, ''b'') (entry (Class, ''a'')) = Inl (OrderError, entry (Class, ''a''))"
    by (simp add: facade_defs appender_defs checkQueue_cases)
  have k: "invoke (Id, ''b'') (entry (Id, ''a'')) =
     Inl (CountError,
       \<lparr>elements = 0, ids = 2, pseudoElements = 0, callQueue = 2, values_str = ''#a''\<rparr>)"
    by (simp add: facade_defs appender_defs checkQueue_cases)
  have i: "spec_cardinality (entry (Id, ''a''))"
    by (simp add: facade_defs spec_cardinality_def)
  show ?thesis
    using o k i raise_frame [OF o] raise_frame [OF k]
    by (simp add: facade_defs)
qed


subsection \<open>The ordering check\<close>

text \<open>
  In every state an accumulator can reach, a counter that is not zero means that the
  stage number has reached the stage of that counter.
\<close>

lemma invoke_keeps_stage_reached:
  assumes "1 \<le> callQueue b"
    and "1 \<le> ids b \<longrightarrow> 2 \<le> callQueue b"
    and "1 \<le> pseudoElements b \<longrightarrow> 6 \<le> callQueue b"
  shows "1 \<le> callQueue (left_behind (invoke c b))"
    and "1 \<le> ids (left_behind (invoke c b)) \<longrightarrow> 2 \<le> callQueue (left_behind (invoke c b))"
    and "1 \<le> pseudoElements (left_behind (invoke c b)) \<longrightarrow>
           6 \<le> callQueue (left_behind (invoke c b))"
    and "callQueue (left_behind (invoke c b)) =
           (if raised (invoke c b) = None then spec_ordinal (fst c) else callQueue b)"
  using assms
  by (cases c; cases "fst c";
      auto simp: appender_defs checkQueue_cases Let_def)+

lemma lifetime_callQueue:
  assumes "1 \<le> callQueue b"
    and "1 \<le> ids b \<longrightarrow> 2 \<le> callQueue b"
    and "1 \<le> pseudoElements b \<longrightarrow> 6 \<le> callQueue b"
  shows "callQueue (lifetime b cs) =
           (if applied b cs = [] then callQueue b else spec_ordinal (fst (last (applied b cs))))"
  using assms
proof (induction cs arbitrary: b)
  case Nil
  then show ?case by simp
next
  case (Cons c cs)
  note step = invoke_keeps_stage_reached [OF Cons.prems, of c]
  note ih = Cons.IH [OF step(1,2,3)]
  show ?case
  proof (cases "raised (invoke c b)")
    case None
    then show ?thesis using ih step(4) by simp
  next
    case (Some e)
    then show ?thesis using ih step(4) by simp
  qed
qed

lemma entry_stage_reached:
  "1 \<le> callQueue (entry c)"
  "1 \<le> ids (entry c) \<longrightarrow> 2 \<le> callQueue (entry c)"
  "1 \<le> pseudoElements (entry c) \<longrightarrow> 6 \<le> callQueue (entry c)"
  by (cases c; cases "fst c"; simp add: facade_defs)+

lemma last_stage_applied:
  "callQueue (lifetime (entry c0) cs) = spec_ordinal (fst (last (c0 # applied (entry c0) cs)))"
  using lifetime_callQueue [OF entry_stage_reached, of c0 cs]
  by (simp add: entry_callQueue)

text \<open>
  C2. A call throws the ordering error exactly when the ordinal of its stage is strictly
  below the stage number the accumulator holds; and through the whole life of an
  accumulator, throws included, that number is the ordinal of the last stage applied: of
  the last call that returned, or of the facade entry when none has. So \<open>class\<close> after
  \<open>attr\<close> throws the ordering error and \<open>class\<close> after \<open>class\<close> returns, both when the first
  of the two calls is the facade entry and when it is a chained call.
\<close>

theorem ordering_error_iff:
  "(raised (invoke c b) = Some OrderError \<longleftrightarrow> spec_ordinal (fst c) < callQueue b) \<and>
   callQueue (lifetime (entry c0) cs) =
     spec_ordinal (fst (last (c0 # applied (entry c0) cs))) \<and>
   raised (invoke (Class, w) (entry (Attr, v))) = Some OrderError \<and>
   (invoke (Attr, v) b = Inr b' \<longrightarrow> raised (invoke (Class, w) b') = Some OrderError) \<and>
   raised (invoke (Class, w) (entry (Class, v))) = None \<and>
   (invoke (Class, v) b = Inr b' \<longrightarrow> raised (invoke (Class, w) b') = None)"
proof -
  have iff: "raised (invoke c b) = Some OrderError \<longleftrightarrow> spec_ordinal (fst c) < callQueue b"
    using invoke_order_error [of c b] invoke_passes_order [of c b] by auto
  have after: "raised (Builder_class w b') = (if 3 < callQueue b' then Some OrderError else None)"
    for b'
    by (simp add: Builder_class_def checkQueue_cases)
  have a4: "invoke (Attr, v) b = Inr b' \<Longrightarrow> callQueue b' = 4"
    using invoke_returns_callQueue [of "(Attr, v)" b b'] by simp
  have a3: "invoke (Class, v) b = Inr b' \<Longrightarrow> callQueue b' = 3"
    using invoke_returns_callQueue [of "(Class, v)" b b'] by simp
  show ?thesis
    using iff last_stage_applied [of c0 cs] a3 a4
    by (simp add: after facade_defs)
qed

theorem ordering_error_iff_witness:
  "(raised (invoke (Id, ''x'') (entry (Class, ''c''))) = Some OrderError \<longleftrightarrow>
      spec_ordinal Id < callQueue (entry (Class, ''c''))) \<and>
   applied (entry (Class, ''c'')) [(Attr, ''a''), (Id, ''x'')] = [(Attr, ''a'')] \<and>
   callQueue (lifetime (entry (Class, ''c'')) [(Attr, ''a''), (Id, ''x'')]) = 4 \<and>
   invoke (Attr, ''a'') (entry (Class, ''c'')) =
     Inr \<lparr>elements = 0, ids = 0, pseudoElements = 0, callQueue = 4, values_str = ''.c[a]''\<rparr> \<and>
   raised (invoke (Class, ''d'')
     \<lparr>elements = 0, ids = 0, pseudoElements = 0, callQueue = 4, values_str = ''.c[a]''\<rparr>) =
     Some OrderError \<and>
   invoke (Class, ''a'') (entry (Class, ''c'')) =
     Inr \<lparr>elements = 0, ids = 0, pseudoElements = 0, callQueue = 3, values_str = ''.c.a''\<rparr> \<and>
   raised (invoke (Class, ''d'')
     \<lparr>elements = 0, ids = 0, pseudoElements = 0, callQueue = 3, values_str = ''.c.a''\<rparr>) = None"
proof -
  have h4: "invoke (Attr, ''a'') (entry (Class, ''c'')) =
     Inr \<lparr>elements = 0, ids = 0, pseudoElements = 0, callQueue = 4, values_str = ''.c[a]''\<rparr>"
    by (simp add: Builder_attr_def checkQueue_cases facade_defs)
  have h3: "invoke (Class, ''a'') (entry (Class, ''c'')) =
     Inr \<lparr>elements = 0, ids = 0, pseudoElements = 0, callQueue = 3, values_str = ''.c.a''\<rparr>"
    by (simp add: Builder_class_def checkQueue_cases facade_defs)
  have ap: "applied (entry (Class, ''c'')) [(Attr, ''a''), (Id, ''x'')] = [(Attr, ''a'')]"
    by (simp add: appender_defs checkQueue_cases facade_defs)
  show ?thesis
    using h3 h4 ap
      ordering_error_iff [of "(Id, ''x'')" "entry (Class, ''c'')"
        "(Class, ''c'')" "[(Attr, ''a''), (Id, ''x'')]" "''d''" "''a''"
        "\<lparr>elements = 0, ids = 0, pseudoElements = 0, callQueue = 4, values_str = ''.c[a]''\<rparr>"]
      ordering_error_iff [of "(Attr, ''a'')" "entry (Class, ''c'')"
        "(Class, ''c'')" "[(Attr, ''a''), (Id, ''x'')]" "''d''" "''a''"
        "\<lparr>elements = 0, ids = 0, pseudoElements = 0, callQueue = 4, values_str = ''.c[a]''\<rparr>"]
      ordering_error_iff [of "(Class, ''a'')" "entry (Class, ''c'')"
        "(Class, ''c'')" "[(Attr, ''a''), (Id, ''x'')]" "''d''" "''a''"
        "\<lparr>elements = 0, ids = 0, pseudoElements = 0, callQueue = 3, values_str = ''.c.a''\<rparr>"]
    by simp
qed

end
